theory Spec2Isabelle
  imports Complex_Main "HOL-Library.Multiset" "HOL-Library.Char_ord" "HOL-Library.List_Lexorder"
begin

section \<open>Tiles and errors\<close>

text \<open>
  The exceptions the modelled functions can raise. \<open>InvalidCoordinate\<close> stands for the
  failure of the tile constructor \<open>Tile.from_tms\<close>; \<open>FormatError\<close> for a failure of
  \<open>str.format\<close> on a caller-supplied template.
\<close>

datatype error = KeyError | TypeError | AttributeError | ValueError | InvalidCoordinate | FormatError

text \<open>A \<open>Tile\<close> object: \<open>tile.tms\<close> is the pair \<open>(tms_x, tms_y)\<close>, \<open>tile.zoom\<close> the level.\<close>

record tile =
  tms_x :: int
  tms_y :: int
  zoom :: int

text \<open>
  \<open>Tile.from_tms(x, y, zoom)\<close> belongs to the external package pygeotile. Its acceptance
  check is a parameter \<open>chk\<close> of the model: the constructor either builds the tile or raises.
\<close>

definition from_tms :: "(int \<Rightarrow> int \<Rightarrow> int \<Rightarrow> bool) \<Rightarrow> int \<Rightarrow> int \<Rightarrow> int \<Rightarrow> error + tile" where
  "from_tms chk x y z =
     (if chk x y z then Inr \<lparr>tms_x = x, tms_y = y, zoom = z\<rparr> else Inl InvalidCoordinate)"

text \<open>
  Modelled from the spec: the range check of the tile constructor, which is not under src/.
  A tile index is in range when its zoom is not negative and x and y lie in
  \<open>[0, 2^zoom - 1]\<close>.
\<close>

definition tms_in_range :: "int \<Rightarrow> int \<Rightarrow> int \<Rightarrow> bool" where
  "tms_in_range x y z \<longleftrightarrow> 0 \<le> z \<and> 0 \<le> x \<and> x \<le> 2 ^ nat z - 1 \<and> 0 \<le> y \<and> y \<le> 2 ^ nat z - 1"

definition in_range_tile :: "tile \<Rightarrow> bool" where
  "in_range_tile t \<longleftrightarrow> tms_in_range (tms_x t) (tms_y t) (zoom t)"

text \<open>The spec's valid TileCoordinate: in range, with zoom in \<open>[0, 19]\<close>.\<close>

definition valid_tile :: "tile \<Rightarrow> bool" where
  "valid_tile t \<longleftrightarrow> zoom t \<le> 19 \<and> tms_in_range (tms_x t) (tms_y t) (zoom t)"

section \<open>Children of a tile\<close>

text \<open>
  \<open>_get_quadrant_tiles\<close>: the list literal builds UL, LL, UR, LR in this order; the first
  constructor call that raises aborts the whole call.
\<close>

definition get_quadrant_tiles :: "(int \<Rightarrow> int \<Rightarrow> int \<Rightarrow> bool) \<Rightarrow> tile \<Rightarrow> error + tile list" where
  "get_quadrant_tiles chk t =
     (let ul0 = tms_x t * 2; ul1 = tms_y t * 2 in
      (case from_tms chk ul0 ul1 (zoom t + 1) of Inl e \<Rightarrow> Inl e | Inr c1 \<Rightarrow>
      (case from_tms chk ul0 (ul1 + 1) (zoom t + 1) of Inl e \<Rightarrow> Inl e | Inr c2 \<Rightarrow>
      (case from_tms chk (ul0 + 1) ul1 (zoom t + 1) of Inl e \<Rightarrow> Inl e | Inr c3 \<Rightarrow>
      (case from_tms chk (ul0 + 1) (ul1 + 1) (zoom t + 1) of Inl e \<Rightarrow> Inl e | Inr c4 \<Rightarrow>
         Inr [c1, c2, c3, c4])))))"

section \<open>Decimal strings\<close>

text \<open>\<open>str(n)\<close> of a Python int: decimal digits, most significant first, \<open>-\<close> before a negative.\<close>

definition digit_char :: "nat \<Rightarrow> char" where
  "digit_char d = char_of (of_char CHR ''0'' + d)"

fun str_nat :: "nat \<Rightarrow> string" where
  "str_nat n = (if n < 10 then [digit_char n] else str_nat (n div 10) @ [digit_char (n mod 10)])"

declare str_nat.simps [simp del]

definition str_int :: "int \<Rightarrow> string" where
  "str_int i = (if i < 0 then CHR ''-'' # str_nat (nat (- i)) else str_nat (nat i))"

text \<open>
  \<open>ret_format.format(**tile_dict)\<close> is a function of the three entries \<open>x\<close>, \<open>y\<close>, \<open>z\<close> of
  \<open>tile_dict\<close> that may raise; the model takes it as the parameter \<open>fmt\<close>. The default
  template \<open>'{z}-{x}-{y}'\<close> is \<open>ret_format_default\<close>.
\<close>

definition tile_ident :: "int \<Rightarrow> int \<Rightarrow> int \<Rightarrow> string" where
  "tile_ident x y z = str_int z @ ''-'' @ str_int x @ ''-'' @ str_int y"

definition ret_format_default :: "int \<Rightarrow> int \<Rightarrow> int \<Rightarrow> error + string" where
  "ret_format_default x y z = Inr (tile_ident x y z)"

section \<open>The tile pyramid\<close>

text \<open>
  One iteration of the \<open>while\<close> loop of \<open>get_tile_pyramid\<close>, entered with a non-empty stack:
  \<open>temp_tile\<close> is the popped tile, \<open>rest\<close> the stack below it (its head is the next tile to
  pop) and \<open>desired\<close> the list \<open>desired_tiles\<close>. Putting the four children on the LIFO queue
  in list order leaves the last child on top.
\<close>

definition loop_body ::
  "(int \<Rightarrow> int \<Rightarrow> int \<Rightarrow> bool) \<Rightarrow> (int \<Rightarrow> int \<Rightarrow> int \<Rightarrow> error + string) \<Rightarrow> int \<Rightarrow>
   tile \<Rightarrow> tile list \<Rightarrow> string list \<Rightarrow> error + (tile list \<times> string list)" where
  "loop_body chk fmt max_zoom temp_tile rest desired =
     (if zoom temp_tile \<ge> max_zoom then
        (case fmt (tms_x temp_tile) (tms_y temp_tile) (zoom temp_tile) of
           Inl e \<Rightarrow> Inl e
         | Inr s \<Rightarrow> Inr (rest, desired @ [s]))
      else
        (case get_quadrant_tiles chk temp_tile of
           Inl e \<Rightarrow> Inl e
         | Inr cs \<Rightarrow> Inr (rev cs @ rest, desired)))"

text \<open>
  The termination measure of the loop: a tile \<open>d\<close> levels above \<open>max_zoom\<close> weighs \<open>5^d\<close>,
  more than its four children together.
\<close>

definition tile_weight :: "int \<Rightarrow> tile \<Rightarrow> nat" where
  "tile_weight max_zoom t = 5 ^ nat (max_zoom - zoom t)"

definition stack_weight :: "int \<Rightarrow> tile list \<Rightarrow> nat" where
  "stack_weight max_zoom st = sum_list (map (tile_weight max_zoom) st)"

lemma from_tms_zoom: "from_tms chk x y z = Inr c \<Longrightarrow> zoom c = z"
  by (auto simp: from_tms_def split: if_splits)

lemma get_quadrant_tiles_zoom:
  assumes "get_quadrant_tiles chk t = Inr cs"
  shows "\<exists>c1 c2 c3 c4. cs = [c1, c2, c3, c4] \<and> zoom c1 = zoom t + 1 \<and> zoom c2 = zoom t + 1
           \<and> zoom c3 = zoom t + 1 \<and> zoom c4 = zoom t + 1"
  using assms
  by (auto simp: get_quadrant_tiles_def Let_def from_tms_def split: sum.splits if_splits)

lemma tile_weight_child:
  assumes "zoom t < max_zoom" and "zoom c = zoom t + 1"
  shows "5 * tile_weight max_zoom c = tile_weight max_zoom t"
proof -
  have "nat (max_zoom - zoom t) = Suc (nat (max_zoom - zoom c))"
    using assms by simp
  then show ?thesis by (simp add: tile_weight_def)
qed

lemma tile_weight_pos: "0 < tile_weight max_zoom t"
  by (simp add: tile_weight_def)

lemma loop_body_decreases:
  assumes "loop_body chk fmt max_zoom t rest desired = Inr (st', desired')"
  shows "stack_weight max_zoom st' < stack_weight max_zoom (t # rest)"
proof (cases "zoom t \<ge> max_zoom")
  case True
  with assms have "st' = rest"
    by (auto simp: loop_body_def split: sum.splits)
  then show ?thesis
    using tile_weight_pos [of max_zoom t] by (simp add: stack_weight_def)
next
  case False
  with assms obtain cs where cs: "get_quadrant_tiles chk t = Inr cs" and st': "st' = rev cs @ rest"
    by (auto simp: loop_body_def split: sum.splits)
  from get_quadrant_tiles_zoom [OF cs] obtain c1 c2 c3 c4 where
    eq: "cs = [c1, c2, c3, c4]" and z: "zoom c1 = zoom t + 1" "zoom c2 = zoom t + 1"
      "zoom c3 = zoom t + 1" "zoom c4 = zoom t + 1"
    by blast
  from False have lt: "zoom t < max_zoom" by simp
  have "5 * tile_weight max_zoom c1 = tile_weight max_zoom t"
       "5 * tile_weight max_zoom c2 = tile_weight max_zoom t"
       "5 * tile_weight max_zoom c3 = tile_weight max_zoom t"
       "5 * tile_weight max_zoom c4 = tile_weight max_zoom t"
    using tile_weight_child [OF lt] z by simp_all
  moreover have "0 < tile_weight max_zoom t" by (rule tile_weight_pos)
  ultimately show ?thesis
    by (simp add: st' eq stack_weight_def)
qed

text \<open>
  The loop \<open>while not stack.empty()\<close>, from a given stack and list of results, up to the
  \<open>return desired_tiles\<close> that follows it.
\<close>

function pyramid_loop ::
  "(int \<Rightarrow> int \<Rightarrow> int \<Rightarrow> bool) \<Rightarrow> (int \<Rightarrow> int \<Rightarrow> int \<Rightarrow> error + string) \<Rightarrow> int \<Rightarrow>
   tile list \<Rightarrow> string list \<Rightarrow> error + string list" where
  "pyramid_loop chk fmt max_zoom [] desired = Inr desired"
| "pyramid_loop chk fmt max_zoom (temp_tile # rest) desired =
     (case loop_body chk fmt max_zoom temp_tile rest desired of
        Inl e \<Rightarrow> Inl e
      | Inr (st', desired') \<Rightarrow> pyramid_loop chk fmt max_zoom st' desired')"
  by pat_completeness auto
termination
  by (relation "measure (\<lambda>(chk, fmt, max_zoom, st, desired). stack_weight max_zoom st)")
     (auto dest: loop_body_decreases)

text \<open>
  \<open>get_tile_pyramid\<close>: \<open>top_tile_dict\<close> is a dict from key names to ints, read at \<open>'x'\<close>,
  \<open>'y'\<close> and \<open>'z'\<close> in this order; a missing key raises.
\<close>

definition subscript :: "(string \<rightharpoonup> int) \<Rightarrow> string \<Rightarrow> error + int" where
  "subscript d k = (case d k of None \<Rightarrow> Inl KeyError | Some v \<Rightarrow> Inr v)"

definition get_tile_pyramid ::
  "(int \<Rightarrow> int \<Rightarrow> int \<Rightarrow> bool) \<Rightarrow> (string \<rightharpoonup> int) \<Rightarrow> int \<Rightarrow> (int \<Rightarrow> int \<Rightarrow> int \<Rightarrow> error + string) \<Rightarrow>
   error + string list" where
  "get_tile_pyramid chk top_tile_dict max_zoom ret_format =
     (case subscript top_tile_dict ''x'' of Inl e \<Rightarrow> Inl e | Inr x \<Rightarrow>
     (case subscript top_tile_dict ''y'' of Inl e \<Rightarrow> Inl e | Inr y \<Rightarrow>
     (case subscript top_tile_dict ''z'' of Inl e \<Rightarrow> Inl e | Inr z \<Rightarrow>
     (case from_tms chk x y z of Inl e \<Rightarrow> Inl e | Inr top_tile \<Rightarrow>
        pyramid_loop chk ret_format max_zoom [top_tile] []))))"

text \<open>The default \<open>max_zoom=18\<close> of \<open>get_tile_pyramid\<close>.\<close>

definition max_zoom_default :: int where
  "max_zoom_default = 18"

text \<open>The dict \<open>dict(x=x, y=y, z=z)\<close>, and a dict that holds these three entries.\<close>

definition tile_dict :: "int \<Rightarrow> int \<Rightarrow> int \<Rightarrow> (string \<rightharpoonup> int)" where
  "tile_dict x y z = [''x'' \<mapsto> x, ''y'' \<mapsto> y, ''z'' \<mapsto> z]"

definition has_xyz :: "(string \<rightharpoonup> int) \<Rightarrow> int \<Rightarrow> int \<Rightarrow> int \<Rightarrow> bool" where
  "has_xyz d x y z \<longleftrightarrow> d ''x'' = Some x \<and> d ''y'' = Some y \<and> d ''z'' = Some z"

text \<open>
  The loop cut after \<open>n\<close> iterations: the stack and the results at that point, or the
  exception raised before. An empty stack ends the loop.
\<close>

fun run_iterations ::
  "(int \<Rightarrow> int \<Rightarrow> int \<Rightarrow> bool) \<Rightarrow> (int \<Rightarrow> int \<Rightarrow> int \<Rightarrow> error + string) \<Rightarrow> int \<Rightarrow> nat \<Rightarrow>
   tile list \<Rightarrow> string list \<Rightarrow> error + (tile list \<times> string list)" where
  "run_iterations chk fmt max_zoom 0 st desired = Inr (st, desired)"
| "run_iterations chk fmt max_zoom (Suc n) [] desired = Inr ([], desired)"
| "run_iterations chk fmt max_zoom (Suc n) (temp_tile # rest) desired =
     (case loop_body chk fmt max_zoom temp_tile rest desired of
        Inl e \<Rightarrow> Inl e
      | Inr (st', desired') \<Rightarrow> run_iterations chk fmt max_zoom n st' desired')"



section \<open>Reading an identifier back\<close>

text \<open>
  The head of \<open>cog_windowed_read\<close>: \<open>z, x, y = [int(val) for val in tile_ind.split('-')]\<close>.
  \<open>int\<close> strips surrounding whitespace and accepts a sign and single underscores between
  digits; a list that does not unpack into three values raises \<open>ValueError\<close>.
\<close>

definition is_space :: "char \<Rightarrow> bool" where
  "is_space c \<longleftrightarrow> (of_char c :: nat) \<in> {9, 10, 11, 12, 13, 28, 29, 30, 31, 32, 133, 160}"

definition strip :: "string \<Rightarrow> string" where
  "strip s = rev (dropWhile is_space (rev (dropWhile is_space s)))"

definition is_digit :: "char \<Rightarrow> bool" where
  "is_digit c \<longleftrightarrow> (48::nat) \<le> of_char c \<and> of_char c \<le> (57::nat)"

definition digit_val :: "char \<Rightarrow> nat" where
  "digit_val c = of_char c - 48"

fun int_digits :: "nat \<Rightarrow> string \<Rightarrow> nat option" where
  "int_digits acc [] = Some acc"
| "int_digits acc (c # cs) =
     (if is_digit c then int_digits (10 * acc + digit_val c) cs
      else if c = CHR ''_'' then
        (case cs of
           [] \<Rightarrow> None
         | d # ds \<Rightarrow> if is_digit d then int_digits (10 * acc + digit_val d) ds else None)
      else None)"

definition int_unsigned :: "string \<Rightarrow> nat option" where
  "int_unsigned s =
     (case s of [] \<Rightarrow> None | c # cs \<Rightarrow> if is_digit c then int_digits (digit_val c) cs else None)"

definition py_int :: "string \<Rightarrow> error + int" where
  "py_int s =
     (case strip s of
        [] \<Rightarrow> Inl ValueError
      | c # cs \<Rightarrow>
          if c = CHR ''-'' then
            (case int_unsigned cs of None \<Rightarrow> Inl ValueError | Some n \<Rightarrow> Inr (- int n))
          else if c = CHR ''+'' then
            (case int_unsigned cs of None \<Rightarrow> Inl ValueError | Some n \<Rightarrow> Inr (int n))
          else
            (case int_unsigned (c # cs) of None \<Rightarrow> Inl ValueError | Some n \<Rightarrow> Inr (int n)))"

fun split_from :: "char \<Rightarrow> string \<Rightarrow> string \<Rightarrow> string list" where
  "split_from sep cur [] = [cur]"
| "split_from sep cur (c # cs) =
     (if c = sep then cur # split_from sep [] cs else split_from sep (cur @ [c]) cs)"

definition split :: "string \<Rightarrow> char \<Rightarrow> string list" where
  "split s sep = split_from sep [] s"

fun int_each :: "string list \<Rightarrow> error + int list" where
  "int_each [] = Inr []"
| "int_each (v # vs) =
     (case py_int v of
        Inl e \<Rightarrow> Inl e
      | Inr i \<Rightarrow> (case int_each vs of Inl e \<Rightarrow> Inl e | Inr is \<Rightarrow> Inr (i # is)))"

definition parse_zxy :: "string \<Rightarrow> error + (int \<times> int \<times> int)" where
  "parse_zxy tile_ind =
     (case int_each (split tile_ind CHR ''-'') of
        Inl e \<Rightarrow> Inl e
      | Inr [z, x, y] \<Rightarrow> Inr (z, x, y)
      | Inr _ \<Rightarrow> Inl ValueError)"

text \<open>The argument \<open>tile_ind\<close>: a dict, a str, or a value of another type.\<close>

datatype tile_ind = IndDict "string \<rightharpoonup> int" | IndStr string | IndOther


section \<open>Stripping a task collection\<close>

text \<open>
  The value \<open>json.loads\<close> returns. A dict keeps its keys in insertion order, each key once.
  \<open>json.loads\<close> itself and Python's \<open>str\<close> are parameters of the model
  (\<open>json_loads\<close>, \<open>py_str\<close>), as is the digest \<open>hashlib.md5(...).hexdigest()\<close>.
\<close>

datatype json =
    JNull
  | JBool bool
  | JInt int
  | JFloat real
  | JStr string
  | JList "json list"
  | JDict "(string \<times> json) list"

text \<open>\<open>k in v.keys()\<close>, \<open>v[k]\<close> for a str key, and the values \<open>for task in v\<close> goes through.\<close>

definition keys_contain :: "json \<Rightarrow> string \<Rightarrow> error + bool" where
  "keys_contain v k = (case v of JDict kvs \<Rightarrow> Inr (k \<in> set (map fst kvs)) | _ \<Rightarrow> Inl AttributeError)"

definition getitem :: "json \<Rightarrow> string \<Rightarrow> error + json" where
  "getitem v k =
     (case v of
        JDict kvs \<Rightarrow> (case map_of kvs k of None \<Rightarrow> Inl KeyError | Some w \<Rightarrow> Inr w)
      | _ \<Rightarrow> Inl TypeError)"

definition iter :: "json \<Rightarrow> error + json list" where
  "iter v =
     (case v of
        JList xs \<Rightarrow> Inr xs
      | JDict kvs \<Rightarrow> Inr (map (\<lambda>kv. JStr (fst kv)) kvs)
      | JStr s \<Rightarrow> Inr (map (\<lambda>c. JStr [c]) s)
      | _ \<Rightarrow> Inl TypeError)"

text \<open>\<open>s.replace("'", '"')\<close> and \<open>'{{"taskID": {}, "geometry": {}}}'.format(a, b)\<close>.\<close>

definition replace_quotes :: "string \<Rightarrow> string" where
  "replace_quotes s = map (\<lambda>c. if c = CHR 0x27 then CHR 0x22 else c) s"

definition task_format :: "string \<Rightarrow> string \<Rightarrow> string" where
  \<open>task_format a b = ''{"taskID": '' @ a @ '', "geometry": '' @ b @ ''}''\<close>

text \<open>The body of the \<open>for\<close> loop, and the loop appending to \<open>stripped_tasks\<close>.\<close>

definition strip_task :: "(json \<Rightarrow> string) \<Rightarrow> json \<Rightarrow> error + string" where
  "strip_task py_str task =
     (case getitem task ''properties'' of Inl e \<Rightarrow> Inl e | Inr props \<Rightarrow>
     (case getitem props ''taskId'' of Inl e \<Rightarrow> Inl e | Inr task_id \<Rightarrow>
     (case getitem task ''geometry'' of Inl e \<Rightarrow> Inl e | Inr geometry \<Rightarrow>
        Inr (task_format (replace_quotes (py_str task_id)) (replace_quotes (py_str geometry))))))"

fun strip_tasks :: "(json \<Rightarrow> string) \<Rightarrow> json list \<Rightarrow> string list \<Rightarrow> error + string list" where
  "strip_tasks py_str [] stripped_tasks = Inr stripped_tasks"
| "strip_tasks py_str (task # tasks) stripped_tasks =
     (case strip_task py_str task of
        Inl e \<Rightarrow> Inl e
      | Inr s \<Rightarrow> strip_tasks py_str tasks (stripped_tasks @ [s]))"

text \<open>\<open>sep.join(xs)\<close>.\<close>

fun join :: "string \<Rightarrow> string list \<Rightarrow> string" where
  "join sep [] = []"
| "join sep [x] = x"
| "join sep (x # y # ys) = x @ sep @ join sep (y # ys)"

text \<open>
  \<open>get_stripped_geojson_tasks\<close>: \<open>task_features\<close> is the part from the check for
  \<open>"tasks"\<close> to the sequence \<open>json_dict['tasks']['features']\<close> the loop iterates.
  \<open>sorted\<close> orders strings by code point, as the lexicographic order on \<open>char list\<close> does.
\<close>

definition task_features :: "json \<Rightarrow> error + json list" where
  "task_features json_dict =
     (case keys_contain json_dict ''tasks'' of Inl e \<Rightarrow> Inl e | Inr present \<Rightarrow>
        if \<not> present then Inl ValueError
        else
          (case getitem json_dict ''tasks'' of Inl e \<Rightarrow> Inl e | Inr tasks \<Rightarrow>
          (case getitem tasks ''features'' of Inl e \<Rightarrow> Inl e | Inr features \<Rightarrow>
             iter features)))"

definition get_stripped_geojson_tasks ::
  "(string \<Rightarrow> error + json) \<Rightarrow> (json \<Rightarrow> string) \<Rightarrow> string \<Rightarrow> error + string" where
  "get_stripped_geojson_tasks json_loads py_str text_data =
     (case json_loads text_data of Inl e \<Rightarrow> Inl e | Inr json_dict \<Rightarrow>
     (case task_features json_dict of Inl e \<Rightarrow> Inl e | Inr tasks \<Rightarrow>
     (case strip_tasks py_str tasks [] of Inl e \<Rightarrow> Inl e | Inr stripped_tasks \<Rightarrow>
        Inr (join [CHR 0x0A] (sort stripped_tasks)))))"

text \<open>\<open>_get_md5_checksum\<close> on a str, and \<open>_test_geoj_equality\<close>.\<close>

definition encode_utf8 :: "string \<Rightarrow> string" where
  "encode_utf8 s =
     concat (map (\<lambda>c. if (of_char c :: nat) < 128 then [c]
                       else [char_of (192 + (of_char c :: nat) div 64),
                             char_of (128 + (of_char c :: nat) mod 64)]) s)"

definition get_md5_checksum :: "(string \<Rightarrow> string) \<Rightarrow> string \<Rightarrow> string" where
  "get_md5_checksum md5_hexdigest str_obj = md5_hexdigest (encode_utf8 str_obj)"

definition test_geoj_equality ::
  "(string \<Rightarrow> error + json) \<Rightarrow> (json \<Rightarrow> string) \<Rightarrow> (string \<Rightarrow> string) \<Rightarrow> string \<Rightarrow> string \<Rightarrow> error + bool" where
  "test_geoj_equality json_loads py_str md5_hexdigest geojson_str_1 geojson_str_2 =
     (case get_stripped_geojson_tasks json_loads py_str geojson_str_1 of Inl e \<Rightarrow> Inl e | Inr s1 \<Rightarrow>
     (case get_stripped_geojson_tasks json_loads py_str geojson_str_2 of Inl e \<Rightarrow> Inl e | Inr s2 \<Rightarrow>
        Inr (get_md5_checksum md5_hexdigest s1 = get_md5_checksum md5_hexdigest s2)))"

section \<open>Area per pixel\<close>




section \<open>Notions used to state the properties\<close>

text \<open>The four children of a tile, without the constructor's check.\<close>

definition quadrants :: "tile \<Rightarrow> tile list" where
  "quadrants t =
     [\<lparr>tms_x = tms_x t * 2, tms_y = tms_y t * 2, zoom = zoom t + 1\<rparr>,
      \<lparr>tms_x = tms_x t * 2, tms_y = tms_y t * 2 + 1, zoom = zoom t + 1\<rparr>,
      \<lparr>tms_x = tms_x t * 2 + 1, tms_y = tms_y t * 2, zoom = zoom t + 1\<rparr>,
      \<lparr>tms_x = tms_x t * 2 + 1, tms_y = tms_y t * 2 + 1, zoom = zoom t + 1\<rparr>]"

text \<open>
  The descendants of a tile \<open>n\<close> levels below it, in the order the loop reaches them, and
  the number of tiles the loop pops on the way.
\<close>

fun leaves :: "nat \<Rightarrow> tile \<Rightarrow> tile list" where
  "leaves 0 t = [t]"
| "leaves (Suc n) t = concat (map (leaves n) (rev (quadrants t)))"

fun visits :: "nat \<Rightarrow> nat" where
  "visits 0 = 1"
| "visits (Suc n) = 1 + 4 * visits n"

definition stack_leaves :: "int \<Rightarrow> tile list \<Rightarrow> tile list" where
  "stack_leaves max_zoom st = concat (map (\<lambda>t. leaves (nat (max_zoom - zoom t)) t) st)"

definition stack_visits :: "int \<Rightarrow> tile list \<Rightarrow> nat" where
  "stack_visits max_zoom st = sum_list (map (\<lambda>t. visits (nat (max_zoom - zoom t))) st)"

text \<open>The number a string of decimal digits denotes, continuing from \<open>acc\<close>.\<close>

definition digits_value :: "nat \<Rightarrow> string \<Rightarrow> nat" where
  "digits_value acc ds = foldl (\<lambda>a c. 10 * a + digit_val c) acc ds"

text \<open>The pair the loop body reads from a task, and the line it writes for the pair.\<close>

definition task_pair :: "json \<Rightarrow> error + (json \<times> json)" where
  "task_pair task =
     (case getitem task ''properties'' of Inl e \<Rightarrow> Inl e | Inr props \<Rightarrow>
     (case getitem props ''taskId'' of Inl e \<Rightarrow> Inl e | Inr task_id \<Rightarrow>
     (case getitem task ''geometry'' of Inl e \<Rightarrow> Inl e | Inr geometry \<Rightarrow>
        Inr (task_id, geometry))))"

definition pair_line :: "(json \<Rightarrow> string) \<Rightarrow> json \<times> json \<Rightarrow> string" where
  "pair_line py_str p =
     task_format (replace_quotes (py_str (fst p))) (replace_quotes (py_str (snd p)))"

definition result_line :: "(json \<Rightarrow> string) \<Rightarrow> error + (json \<times> json) \<Rightarrow> string" where
  "result_line py_str r = (case r of Inl e \<Rightarrow> [] | Inr p \<Rightarrow> pair_line py_str p)"


section \<open>The loop computes the descendants\<close>

lemma tms_in_range_double:
  assumes "tms_in_range x y z"
  shows "tms_in_range (x * 2) (y * 2) (z + 1)" "tms_in_range (x * 2) (y * 2 + 1) (z + 1)"
    "tms_in_range (x * 2 + 1) (y * 2) (z + 1)" "tms_in_range (x * 2 + 1) (y * 2 + 1) (z + 1)"
proof -
  from assms have z: "0 \<le> z" by (simp add: tms_in_range_def)
  then have "nat (z + 1) = Suc (nat z)" by simp
  then have p: "(2::int) ^ nat (z + 1) = 2 * 2 ^ nat z" by simp
  show "tms_in_range (x * 2) (y * 2) (z + 1)" "tms_in_range (x * 2) (y * 2 + 1) (z + 1)"
    "tms_in_range (x * 2 + 1) (y * 2) (z + 1)" "tms_in_range (x * 2 + 1) (y * 2 + 1) (z + 1)"
    using assms unfolding tms_in_range_def p by auto
qed

lemma get_quadrant_tiles_accepted:
  assumes chk: "\<And>x y z. z \<le> max_zoom \<Longrightarrow> tms_in_range x y z \<Longrightarrow> chk x y z"
    and t: "in_range_tile t" and lt: "zoom t < max_zoom"
  shows "get_quadrant_tiles chk t = Inr (quadrants t)"
proof -
  have le: "zoom t + 1 \<le> max_zoom" using lt by simp
  note r = tms_in_range_double [OF t [unfolded in_range_tile_def]]
  show ?thesis
    by (simp add: get_quadrant_tiles_def Let_def from_tms_def quadrants_def
        chk [OF le r(1)] chk [OF le r(2)] chk [OF le r(3)] chk [OF le r(4)])
qed

lemma quadrants_in_range:
  assumes "in_range_tile t" and "c \<in> set (quadrants t)"
  shows "in_range_tile c \<and> zoom c = zoom t + 1"
  using assms tms_in_range_double [of "tms_x t" "tms_y t" "zoom t"]
  by (auto simp: quadrants_def in_range_tile_def)

lemma stack_leaves_expand:
  assumes "zoom t < max_zoom"
  shows "stack_leaves max_zoom (rev (quadrants t) @ rest) = stack_leaves max_zoom (t # rest)"
proof -
  have k: "nat (max_zoom - zoom t) = Suc (nat (max_zoom - (zoom t + 1)))"
    using assms by simp
  show ?thesis
    by (simp add: stack_leaves_def k) (simp add: quadrants_def)
qed

lemma stack_visits_expand:
  assumes "zoom t < max_zoom"
  shows "Suc (stack_visits max_zoom (rev (quadrants t) @ rest)) = stack_visits max_zoom (t # rest)"
proof -
  have k: "nat (max_zoom - zoom t) = Suc (nat (max_zoom - (zoom t + 1)))"
    using assms by simp
  show ?thesis
    by (simp add: stack_visits_def k) (simp add: quadrants_def)
qed

lemma run_iterations_complete:
  assumes chk: "\<And>x y z. z \<le> max_zoom \<Longrightarrow> tms_in_range x y z \<Longrightarrow> chk x y z"
    and fmt: "\<And>x y z. fmt x y z = Inr (g x y z)"
    and good: "\<forall>t \<in> set st. in_range_tile t \<and> zoom t \<le> max_zoom"
  shows "run_iterations chk fmt max_zoom (stack_visits max_zoom st) st desired =
      Inr ([], desired @ map (\<lambda>t. g (tms_x t) (tms_y t) (zoom t)) (stack_leaves max_zoom st))"
  using assms
proof (induction chk fmt max_zoom st desired rule: pyramid_loop.induct)
  case (1 chk fmt max_zoom desired)
  show ?case by (simp add: stack_visits_def stack_leaves_def)
next
  case (2 chk fmt max_zoom t rest desired)
  note chk = "2.prems"(1) and fmt = "2.prems"(2)
  from "2.prems"(3) have t: "in_range_tile t" "zoom t \<le> max_zoom"
    and rest: "\<forall>u \<in> set rest. in_range_tile u \<and> zoom u \<le> max_zoom"
    by simp_all
  show ?case
  proof (cases "zoom t \<ge> max_zoom")
    case True
    with t have eq: "zoom t = max_zoom" by simp
    have body: "loop_body chk fmt max_zoom t rest desired =
        Inr (rest, desired @ [g (tms_x t) (tms_y t) (zoom t)])"
      by (simp add: loop_body_def eq [symmetric] fmt)
    have v: "stack_visits max_zoom (t # rest) = Suc (stack_visits max_zoom rest)"
      by (simp add: stack_visits_def eq)
    have l: "stack_leaves max_zoom (t # rest) = t # stack_leaves max_zoom rest"
      by (simp add: stack_leaves_def eq)
    show ?thesis
      using "2.IH" [OF body refl chk fmt rest] by (simp add: v l body)
  next
    case False
    then have lt: "zoom t < max_zoom" by simp
    have q: "get_quadrant_tiles chk t = Inr (quadrants t)"
      by (rule get_quadrant_tiles_accepted [OF chk t(1) lt])
    have body: "loop_body chk fmt max_zoom t rest desired = Inr (rev (quadrants t) @ rest, desired)"
      using False by (simp add: loop_body_def q)
    have good: "\<forall>u \<in> set (rev (quadrants t) @ rest). in_range_tile u \<and> zoom u \<le> max_zoom"
      using rest quadrants_in_range [OF t(1)] lt by auto
    show ?thesis
      using "2.IH" [OF body refl chk fmt good]
      by (simp add: stack_visits_expand [OF lt, symmetric] stack_leaves_expand [OF lt] body
          del: rev.simps)
  qed
qed

lemma run_iterations_loop:
  "run_iterations chk fmt max_zoom n st desired = Inr ([], r) \<Longrightarrow>
   pyramid_loop chk fmt max_zoom st desired = Inr r"
proof (induction n arbitrary: st desired)
  case 0
  then show ?case by simp
next
  case (Suc n)
  show ?case
  proof (cases st)
    case Nil
    with Suc.prems show ?thesis by simp
  next
    case (Cons t rest)
    with Suc.prems Suc.IH show ?thesis
      by (auto split: sum.splits)
  qed
qed





lemma get_tile_pyramid_xyz:
  assumes "has_xyz d x y z"
  shows "get_tile_pyramid chk d max_zoom fmt =
    (case from_tms chk x y z of Inl e \<Rightarrow> Inl e | Inr t \<Rightarrow> pyramid_loop chk fmt max_zoom [t] [])"
  using assms by (simp add: get_tile_pyramid_def has_xyz_def subscript_def)

lemma has_xyz_tile_dict: "has_xyz (tile_dict x y z) x y z"
  by (simp add: has_xyz_def tile_dict_def)

lemma pyramid_complete:
  assumes chk: "\<And>x y z. z \<le> max_zoom \<Longrightarrow> tms_in_range x y z \<Longrightarrow> chk x y z"
    and t: "in_range_tile t" "zoom t \<le> max_zoom"
  shows "run_iterations chk ret_format_default max_zoom (visits (nat (max_zoom - zoom t))) [t] [] =
      Inr ([], map (\<lambda>u. tile_ident (tms_x u) (tms_y u) (zoom u)) (leaves (nat (max_zoom - zoom t)) t))"
proof -
  have good: "\<forall>u \<in> set [t]. in_range_tile u \<and> zoom u \<le> max_zoom" using t by simp
  have fmt: "\<And>x y z. ret_format_default x y z = Inr (tile_ident x y z)"
    by (simp add: ret_format_default_def)
  show ?thesis
    using run_iterations_complete [of max_zoom chk ret_format_default tile_ident "[t]" "[]",
        OF chk fmt good]
    by (simp add: stack_visits_def stack_leaves_def)
qed

lemma loop_body_stack:
  assumes "loop_body chk fmt max_zoom t rest desired = Inr (st', desired')"
  shows "if max_zoom \<le> zoom t then st' = rest
         else (\<exists>cs. st' = rev cs @ rest \<and> (\<forall>c \<in> set cs. zoom t < zoom c))"
proof (cases "max_zoom \<le> zoom t")
  case True
  with assms show ?thesis
    by (auto simp: loop_body_def split: sum.splits)
next
  case False
  with assms obtain cs where cs: "get_quadrant_tiles chk t = Inr cs" and st': "st' = rev cs @ rest"
    by (auto simp: loop_body_def split: sum.splits)
  from get_quadrant_tiles_zoom [OF cs] have "\<forall>c \<in> set cs. zoom t < zoom c" by auto
  with st' False show ?thesis by auto
qed

lemma visits_2: "visits 2 = 21"
  by (simp add: numeral_2_eq_2)

section \<open>The descendants of a tile\<close>

lemma leaves_Suc:
  "leaves (Suc n) t =
     leaves n \<lparr>tms_x = tms_x t * 2 + 1, tms_y = tms_y t * 2 + 1, zoom = zoom t + 1\<rparr> @
     leaves n \<lparr>tms_x = tms_x t * 2 + 1, tms_y = tms_y t * 2, zoom = zoom t + 1\<rparr> @
     leaves n \<lparr>tms_x = tms_x t * 2, tms_y = tms_y t * 2 + 1, zoom = zoom t + 1\<rparr> @
     leaves n \<lparr>tms_x = tms_x t * 2, tms_y = tms_y t * 2, zoom = zoom t + 1\<rparr>"
  by (simp add: quadrants_def)

lemma length_leaves: "length (leaves n t) = 4 ^ n"
  by (induction n arbitrary: t) (simp_all add: leaves_Suc del: leaves.simps(2))

lemma div_pow2_Suc:
  fixes a :: int
  assumes "a div 2 ^ n = b" and "b div 2 = c"
  shows "a div 2 ^ Suc n = c"
proof -
  have "a div 2 ^ Suc n = a div (2 ^ n * 2)" by (simp add: mult.commute)
  also have "\<dots> = a div 2 ^ n div 2" by (rule zdiv_zmult2_eq) simp
  finally show ?thesis using assms by simp
qed

lemma ancestor_step:
  assumes "zoom u = zc + int n \<and> tms_x u div 2 ^ n = xc \<and> tms_y u div 2 ^ n = yc"
    and "zc = z + 1" and "xc div 2 = x" and "yc div 2 = y"
  shows "zoom u = z + int (Suc n) \<and> tms_x u div 2 ^ Suc n = x \<and> tms_y u div 2 ^ Suc n = y"
  using assms div_pow2_Suc [of "tms_x u" n xc x] div_pow2_Suc [of "tms_y u" n yc y]
  by simp

lemma leaves_ancestor:
  "u \<in> set (leaves n t) \<Longrightarrow>
     zoom u = zoom t + int n \<and> tms_x u div 2 ^ n = tms_x t \<and> tms_y u div 2 ^ n = tms_y t"
proof (induction n arbitrary: t)
  case 0
  then show ?case by simp
next
  case (Suc n)
  from Suc.prems consider
      "u \<in> set (leaves n \<lparr>tms_x = tms_x t * 2 + 1, tms_y = tms_y t * 2 + 1, zoom = zoom t + 1\<rparr>)"
    | "u \<in> set (leaves n \<lparr>tms_x = tms_x t * 2 + 1, tms_y = tms_y t * 2, zoom = zoom t + 1\<rparr>)"
    | "u \<in> set (leaves n \<lparr>tms_x = tms_x t * 2, tms_y = tms_y t * 2 + 1, zoom = zoom t + 1\<rparr>)"
    | "u \<in> set (leaves n \<lparr>tms_x = tms_x t * 2, tms_y = tms_y t * 2, zoom = zoom t + 1\<rparr>)"
    unfolding leaves_Suc by auto
  then show ?case
  proof cases
    case 1
    show ?thesis by (rule ancestor_step [OF Suc.IH [OF 1]]) simp_all
  next
    case 2
    show ?thesis by (rule ancestor_step [OF Suc.IH [OF 2]]) simp_all
  next
    case 3
    show ?thesis by (rule ancestor_step [OF Suc.IH [OF 3]]) simp_all
  next
    case 4
    show ?thesis by (rule ancestor_step [OF Suc.IH [OF 4]]) simp_all
  qed
qed

lemma leaves_disjoint:
  assumes "tms_x c \<noteq> tms_x c' \<or> tms_y c \<noteq> tms_y c'"
  shows "set (leaves n c) \<inter> set (leaves n c') = {}"
  using assms leaves_ancestor [of _ n c] leaves_ancestor [of _ n c'] by fastforce

lemma distinct_leaves: "distinct (leaves n t)"
proof (induction n arbitrary: t)
  case 0
  show ?case by simp
next
  case (Suc n)
  show ?case
    unfolding leaves_Suc
    by (simp add: Suc.IH leaves_disjoint Int_Un_distrib)
qed

lemma div_pow2_range:
  fixes a :: int
  assumes "a div 2 ^ n = b"
  shows "b * 2 ^ n \<le> a \<and> a \<le> (b + 1) * 2 ^ n - 1"
proof -
  define r where "r = a mod 2 ^ n"
  have r: "0 \<le> r" "r < 2 ^ n" by (simp_all add: r_def)
  have "a = 2 ^ n * b + r"
    unfolding r_def using assms by (metis mult_div_mod_eq)
  then show ?thesis using r by (simp add: algebra_simps)
qed

lemma leaves_nonneg:
  assumes "in_range_tile t" and "u \<in> set (leaves n t)"
  shows "0 \<le> tms_x u \<and> 0 \<le> tms_y u \<and> 0 \<le> zoom u"
proof -
  from assms(1) have t: "0 \<le> tms_x t" "0 \<le> tms_y t" "0 \<le> zoom t"
    by (simp_all add: in_range_tile_def tms_in_range_def)
  from leaves_ancestor [OF assms(2)] have z: "zoom u = zoom t + int n"
    and x: "tms_x u div 2 ^ n = tms_x t" and y: "tms_y u div 2 ^ n = tms_y t"
    by simp_all
  have "0 \<le> tms_x t * 2 ^ n" "0 \<le> tms_y t * 2 ^ n" using t by simp_all
  with div_pow2_range [OF x] div_pow2_range [OF y] z t show ?thesis by linarith
qed

section \<open>Identifiers read back\<close>

lemma of_char_digit_char: "d < 10 \<Longrightarrow> (of_char (digit_char d) :: nat) = 48 + d"
  by (simp add: digit_char_def)

lemma is_digit_digit_char: "d < 10 \<Longrightarrow> is_digit (digit_char d)"
  by (simp add: is_digit_def of_char_digit_char)

lemma digit_val_digit_char: "d < 10 \<Longrightarrow> digit_val (digit_char d) = d"
  by (simp add: digit_val_def of_char_digit_char)

lemma str_nat_digits: "\<forall>c \<in> set (str_nat n). is_digit c"
  by (induction n rule: str_nat.induct) (subst str_nat.simps, simp add: is_digit_digit_char)

lemma str_nat_nonempty: "str_nat n \<noteq> []"
  by (subst str_nat.simps) simp

lemma str_nat_value: "digits_value 0 (str_nat n) = n"
  by (induction n rule: str_nat.induct)
     (subst str_nat.simps, simp add: digits_value_def digit_val_digit_char)

lemma int_digits_value:
  "\<forall>c \<in> set ds. is_digit c \<Longrightarrow> int_digits acc ds = Some (digits_value acc ds)"
  by (induction ds arbitrary: acc) (simp_all add: digits_value_def)

lemma int_unsigned_str_nat: "int_unsigned (str_nat n) = Some n"
proof (cases "str_nat n")
  case Nil
  then show ?thesis using str_nat_nonempty by simp
next
  case (Cons c cs)
  have d: "is_digit c" "\<forall>c \<in> set cs. is_digit c"
    using str_nat_digits [of n] Cons by simp_all
  have "digits_value (digit_val c) cs = n"
    using str_nat_value [of n] by (simp add: Cons digits_value_def)
  then show ?thesis
    by (simp add: int_unsigned_def Cons d int_digits_value)
qed

lemma is_digit_not_space: "is_digit c \<Longrightarrow> \<not> is_space c"
  by (auto simp: is_digit_def is_space_def)

lemma strip_digits:
  assumes "s \<noteq> []" and "\<forall>c \<in> set s. is_digit c"
  shows "strip s = s"
proof -
  from assms obtain c cs where s: "s = c # cs" by (cases s) auto
  with assms have "\<not> is_space c" by (simp add: is_digit_not_space)
  then have 1: "dropWhile is_space s = s" by (simp add: s)
  from assms have "rev s \<noteq> []" "\<forall>c \<in> set (rev s). is_digit c" by simp_all
  then obtain d ds where r: "rev s = d # ds" by (cases "rev s") auto
  with assms have "is_digit d" by (metis list.set_intros(1) set_rev)
  then have "\<not> is_space d" by (rule is_digit_not_space)
  then have 2: "dropWhile is_space (rev s) = rev s" by (simp add: r)
  show ?thesis by (simp add: strip_def 1 2)
qed

lemma py_int_str_nat: "py_int (str_nat n) = Inr (int n)"
proof -
  obtain c cs where s: "str_nat n = c # cs"
    using str_nat_nonempty [of n] by (cases "str_nat n") auto
  have "is_digit c" using str_nat_digits [of n] by (simp add: s)
  then have c: "c \<noteq> CHR ''-''" "c \<noteq> CHR ''+''"
    by (auto simp: is_digit_def)
  have "strip (str_nat n) = c # cs"
    using strip_digits [OF str_nat_nonempty str_nat_digits, of n] by (simp add: s)
  then show ?thesis
    using int_unsigned_str_nat [of n] by (simp add: py_int_def c s)
qed

lemma py_int_str_int: "0 \<le> i \<Longrightarrow> py_int (str_int i) = Inr i"
  by (simp add: str_int_def py_int_str_nat)

lemma dash_not_digit: "is_digit c \<Longrightarrow> c \<noteq> CHR ''-''"
  by (auto simp: is_digit_def)

lemma str_int_no_dash: "0 \<le> i \<Longrightarrow> CHR ''-'' \<notin> set (str_int i)"
  using str_nat_digits dash_not_digit by (auto simp: str_int_def)

lemma split_from_sep:
  "sep \<notin> set a \<Longrightarrow> split_from sep cur (a @ sep # rest) = (cur @ a) # split_from sep [] rest"
  by (induction a arbitrary: cur) auto

lemma split_from_last: "sep \<notin> set a \<Longrightarrow> split_from sep cur a = [cur @ a]"
  by (induction a arbitrary: cur) auto

lemma split_tile_ident:
  assumes "0 \<le> x" "0 \<le> y" "0 \<le> z"
  shows "split (tile_ident x y z) CHR ''-'' = [str_int z, str_int x, str_int y]"
proof -
  have "tile_ident x y z = str_int z @ CHR ''-'' # (str_int x @ CHR ''-'' # str_int y)"
    by (simp add: tile_ident_def)
  then show ?thesis
    using assms
    by (simp add: split_def split_from_sep split_from_last str_int_no_dash)
qed

lemma parse_zxy_tile_ident:
  assumes "0 \<le> x" "0 \<le> y" "0 \<le> z"
  shows "parse_zxy (tile_ident x y z) = Inr (z, x, y)"
  using assms by (simp add: parse_zxy_def split_tile_ident py_int_str_int)

lemma tile_ident_inject:
  assumes "0 \<le> x" "0 \<le> y" "0 \<le> z" "0 \<le> x'" "0 \<le> y'" "0 \<le> z'"
    and "tile_ident x y z = tile_ident x' y' z'"
  shows "x = x' \<and> y = y' \<and> z = z'"
proof -
  have "Inr (z, x, y) = parse_zxy (tile_ident x y z)"
    using assms(1-3) by (simp add: parse_zxy_tile_ident)
  also have "\<dots> = parse_zxy (tile_ident x' y' z')"
    by (simp only: assms(7))
  also have "\<dots> = Inr (z', x', y')"
    using assms(4-6) by (simp add: parse_zxy_tile_ident)
  finally show ?thesis by simp
qed

lemma tile_ident_inj_on_leaves:
  assumes "in_range_tile t"
  shows "inj_on (\<lambda>u. tile_ident (tms_x u) (tms_y u) (zoom u)) (set (leaves n t))"
proof (rule inj_onI)
  fix u v :: tile
  assume u: "u \<in> set (leaves n t)" and v: "v \<in> set (leaves n t)"
    and eq: "tile_ident (tms_x u) (tms_y u) (zoom u) = tile_ident (tms_x v) (tms_y v) (zoom v)"
  from leaves_nonneg [OF assms u] leaves_nonneg [OF assms v]
  have "tms_x u = tms_x v \<and> tms_y u = tms_y v \<and> zoom u = zoom v"
    by (intro tile_ident_inject [OF _ _ _ _ _ _ eq]) simp_all
  then show "u = v" by simp
qed

section \<open>Stripped tasks under reordering\<close>

lemma strip_task_pair:
  "strip_task py_str task =
     (case task_pair task of Inl e \<Rightarrow> Inl e | Inr p \<Rightarrow> Inr (pair_line py_str p))"
  by (simp add: strip_task_def task_pair_def pair_line_def split: sum.splits)

lemma strip_tasks_pairs:
  "map task_pair tasks = map Inr pairs \<Longrightarrow>
   strip_tasks py_str tasks acc = Inr (acc @ map (pair_line py_str) pairs)"
proof (induction tasks arbitrary: acc pairs)
  case Nil
  then show ?case by simp
next
  case (Cons t ts)
  from Cons.prems obtain p ps where pairs: "pairs = p # ps" and p: "task_pair t = Inr p"
    and ps: "map task_pair ts = map Inr ps"
    by (cases pairs) auto
  show ?case
    by (simp add: pairs strip_task_pair p Cons.IH [OF ps])
qed

lemma strip_tasks_succeeds:
  "strip_tasks py_str tasks acc = Inr r \<Longrightarrow> \<exists>pairs. map task_pair tasks = map Inr pairs"
proof (induction tasks arbitrary: acc r)
  case Nil
  then show ?case by simp
next
  case (Cons t ts)
  from Cons.prems obtain p where p: "task_pair t = Inr p"
    by (auto simp: strip_task_pair split: sum.splits)
  with Cons.prems have "strip_tasks py_str ts (acc @ [pair_line py_str p]) = Inr r"
    by (simp add: strip_task_pair)
  from Cons.IH [OF this] obtain ps where "map task_pair ts = map Inr ps" by blast
  with p have "map task_pair (t # ts) = map Inr (p # ps)" by simp
  then show ?case by blast
qed

lemma sort_mset_cong:
  fixes xs ys :: "string list"
  assumes "mset xs = mset ys"
  shows "sort xs = sort ys"
  by (rule properties_for_sort) (simp_all add: assms)

lemma all_Inr_map:
  assumes "\<forall>y \<in> set ys. \<exists>z. y = Inr z"
  shows "\<exists>zs. ys = map Inr zs"
  using assms
proof (induction ys)
  case Nil
  show ?case by simp
next
  case (Cons y ys)
  then obtain z zs where "y = Inr z" "ys = map Inr zs" by auto
  then have "y # ys = map Inr (z # zs)" by simp
  then show ?case by (rule exI [where x = "z # zs"])
qed

lemma strip_tasks_permutation:
  assumes perm: "mset (map task_pair tasks_1) = mset (map task_pair tasks_2)"
    and r1: "strip_tasks py_str tasks_1 [] = Inr r1"
  shows "\<exists>pairs r2. map task_pair tasks_1 = map Inr pairs \<and> r1 = map (pair_line py_str) pairs
      \<and> strip_tasks py_str tasks_2 [] = Inr r2 \<and> sort r2 = sort r1"
proof -
  from strip_tasks_succeeds [OF r1] obtain pairs where
    p1: "map task_pair tasks_1 = map Inr pairs" by blast
  have e1: "r1 = map (pair_line py_str) pairs"
    using strip_tasks_pairs [OF p1, of py_str "[]"] r1 by simp
  have "set (map task_pair tasks_2) = set (map Inr pairs)"
    using mset_eq_setD [OF perm] p1 by simp
  then have "\<forall>y \<in> set (map task_pair tasks_2). \<exists>z. y = Inr z" by auto
  from all_Inr_map [OF this] obtain pairs2 where
    p2: "map task_pair tasks_2 = map Inr pairs2" by blast
  have e2: "strip_tasks py_str tasks_2 [] = Inr (map (pair_line py_str) pairs2)"
    using strip_tasks_pairs [OF p2, of py_str "[]"] by simp
  have l: "map (pair_line py_str) ps = map (result_line py_str) (map Inr ps)" for ps
    by (simp add: result_line_def)
  have "mset (map (pair_line py_str) pairs2) = mset (map (result_line py_str) (map task_pair tasks_2))"
    by (simp only: l p2)
  also have "\<dots> = image_mset (result_line py_str) (mset (map task_pair tasks_2))"
    by (simp only: mset_map)
  also have "\<dots> = image_mset (result_line py_str) (mset (map task_pair tasks_1))"
    by (simp only: perm)
  also have "\<dots> = mset (map (result_line py_str) (map task_pair tasks_1))"
    by (simp only: mset_map)
  also have "\<dots> = mset (map (pair_line py_str) pairs)"
    by (simp only: l p1)
  finally have "sort (map (pair_line py_str) pairs2) = sort (map (pair_line py_str) pairs)"
    by (rule sort_mset_cong)
  with p1 e1 e2 show ?thesis by blast
qed

section \<open>Properties of the specification\<close>

text \<open>
  C1. For a valid top tile and \<open>max_zoom\<close> not below its zoom, \<open>get_tile_pyramid\<close> returns
  \<open>4 ^ (max_zoom - zoom)\<close> identifiers without duplicates; each is the identifier of a tile
  at \<open>max_zoom\<close> whose x and y lie in the descendant range of the top tile. The tile
  constructor is assumed to accept every index in range up to \<open>max_zoom\<close>.
\<close>

theorem get_tile_pyramid_leaves:
  assumes d: "has_xyz d x y z"
    and valid: "valid_tile \<lparr>tms_x = x, tms_y = y, zoom = z\<rparr>"
    and le: "z \<le> max_zoom"
    and chk: "\<And>x' y' z'. z' \<le> max_zoom \<Longrightarrow> tms_in_range x' y' z' \<Longrightarrow> chk x' y' z'"
  shows "\<exists>ids. get_tile_pyramid chk d max_zoom ret_format_default = Inr ids
      \<and> card (set ids) = 4 ^ nat (max_zoom - z)
      \<and> length ids = 4 ^ nat (max_zoom - z)
      \<and> distinct ids
      \<and> (\<forall>s \<in> set ids. \<exists>u v. s = tile_ident u v max_zoom
            \<and> x * 2 ^ nat (max_zoom - z) \<le> u \<and> u \<le> (x + 1) * 2 ^ nat (max_zoom - z) - 1
            \<and> y * 2 ^ nat (max_zoom - z) \<le> v \<and> v \<le> (y + 1) * 2 ^ nat (max_zoom - z) - 1)"
proof -
  define t where "t = \<lparr>tms_x = x, tms_y = y, zoom = z\<rparr>"
  define n where "n = nat (max_zoom - z)"
  define ident where "ident = (\<lambda>u::tile. tile_ident (tms_x u) (tms_y u) (zoom u))"
  define ids where "ids = map ident (leaves n t)"
  have r: "tms_in_range x y z" using valid by (simp add: valid_tile_def)
  have t: "in_range_tile t" "zoom t \<le> max_zoom"
    using r le by (simp_all add: t_def in_range_tile_def)
  have top: "from_tms chk x y z = Inr t"
    using chk [OF le r] by (simp add: from_tms_def t_def)
  have "run_iterations chk ret_format_default max_zoom (visits n) [t] [] = Inr ([], ids)"
    using pyramid_complete [OF chk t] by (simp add: n_def ids_def ident_def t_def)
  then have "pyramid_loop chk ret_format_default max_zoom [t] [] = Inr ids"
    by (rule run_iterations_loop)
  then have res: "get_tile_pyramid chk d max_zoom ret_format_default = Inr ids"
    by (simp add: get_tile_pyramid_xyz [OF d] top)
  have len: "length ids = 4 ^ n" by (simp add: ids_def length_leaves)
  have dist: "distinct ids"
    unfolding ids_def ident_def
    by (simp add: distinct_map distinct_leaves tile_ident_inj_on_leaves [OF t(1)])
  have card: "card (set ids) = 4 ^ n"
    using dist len by (simp add: distinct_card)
  have inside: "\<exists>u v. s = tile_ident u v max_zoom
        \<and> x * 2 ^ n \<le> u \<and> u \<le> (x + 1) * 2 ^ n - 1
        \<and> y * 2 ^ n \<le> v \<and> v \<le> (y + 1) * 2 ^ n - 1" if "s \<in> set ids" for s
  proof -
    from that obtain l where l: "l \<in> set (leaves n t)" and s: "s = ident l"
      by (auto simp: ids_def)
    from leaves_ancestor [OF l] have z: "zoom l = zoom t + int n"
      and lx: "tms_x l div 2 ^ n = x" and ly: "tms_y l div 2 ^ n = y"
      by (simp_all add: t_def)
    have "zoom l = max_zoom" using z le by (simp add: n_def t_def)
    then have "s = tile_ident (tms_x l) (tms_y l) max_zoom" by (simp add: s ident_def)
    with div_pow2_range [OF lx] div_pow2_range [OF ly] show ?thesis by blast
  qed
  show ?thesis
    using res card len dist inside unfolding n_def by blast
qed

theorem get_tile_pyramid_leaves_witness:
  "has_xyz (tile_dict 5 314 16) 5 314 16
   \<and> valid_tile \<lparr>tms_x = 5, tms_y = 314, zoom = 16\<rparr> \<and> 16 \<le> max_zoom_default
   \<and> (\<exists>ids. get_tile_pyramid tms_in_range (tile_dict 5 314 16) max_zoom_default ret_format_default
          = Inr ids
      \<and> card (set ids) = 16 \<and> length ids = 16 \<and> distinct ids
      \<and> (\<forall>s \<in> set ids. \<exists>u v. s = tile_ident u v 18
            \<and> 20 \<le> u \<and> u \<le> 23 \<and> 1256 \<le> v \<and> v \<le> 1259))
   \<and> get_tile_pyramid tms_in_range (tile_dict 5 314 16) max_zoom_default ret_format_default =
       Inr [''18-23-1259'', ''18-23-1258'', ''18-22-1259'', ''18-22-1258'',
            ''18-23-1257'', ''18-23-1256'', ''18-22-1257'', ''18-22-1256'',
            ''18-21-1259'', ''18-21-1258'', ''18-20-1259'', ''18-20-1258'',
            ''18-21-1257'', ''18-21-1256'', ''18-20-1257'', ''18-20-1256'']"
proof -
  have d: "has_xyz (tile_dict 5 314 16) 5 314 16" by (rule has_xyz_tile_dict)
  have v: "valid_tile \<lparr>tms_x = 5, tms_y = 314, zoom = 16\<rparr>"
    by (simp add: valid_tile_def tms_in_range_def)
  have le: "16 \<le> max_zoom_default" by (simp add: max_zoom_default_def)
  have n: "nat (max_zoom_default - 16) = 2" by (simp add: max_zoom_default_def)
  have m: "max_zoom_default = 18" by (simp add: max_zoom_default_def)
  have e: "get_tile_pyramid tms_in_range (tile_dict 5 314 16) max_zoom_default ret_format_default =
       Inr [''18-23-1259'', ''18-23-1258'', ''18-22-1259'', ''18-22-1258'',
            ''18-23-1257'', ''18-23-1256'', ''18-22-1257'', ''18-22-1256'',
            ''18-21-1259'', ''18-21-1258'', ''18-20-1259'', ''18-20-1258'',
            ''18-21-1257'', ''18-21-1256'', ''18-20-1257'', ''18-20-1256'']"
    by code_simp
  have "\<exists>ids. get_tile_pyramid tms_in_range (tile_dict 5 314 16) max_zoom_default ret_format_default
          = Inr ids
      \<and> card (set ids) = 16 \<and> length ids = 16 \<and> distinct ids
      \<and> (\<forall>s \<in> set ids. \<exists>u v. s = tile_ident u v 18
            \<and> 20 \<le> u \<and> u \<le> 23 \<and> 1256 \<le> v \<and> v \<le> 1259)"
    using get_tile_pyramid_leaves [OF d v le, of tms_in_range]
    by (simp add: n) (simp add: m)
  with d v le e show ?thesis by blast
qed

text \<open>
  C2. For a valid tile \<open>(x, y, z)\<close>, \<open>_get_quadrant_tiles\<close> returns four distinct tiles, all
  at zoom \<open>z + 1\<close>, with coordinates \<open>(2x, 2y)\<close>, \<open>(2x, 2y+1)\<close>, \<open>(2x+1, 2y)\<close>,
  \<open>(2x+1, 2y+1)\<close>, provided the constructor accepts the indices in range at zoom \<open>z + 1\<close>.
  The tile \<open>(1412, 3520, 17)\<close> of the spec's scenario is the witness.
\<close>

theorem get_quadrant_tiles_children:
  assumes valid: "valid_tile t"
    and chk: "\<And>x y. tms_in_range x y (zoom t + 1) \<Longrightarrow> chk x y (zoom t + 1)"
  shows "\<exists>cs. get_quadrant_tiles chk t = Inr cs \<and> length cs = 4 \<and> distinct cs
      \<and> set cs = {\<lparr>tms_x = 2 * tms_x t, tms_y = 2 * tms_y t, zoom = zoom t + 1\<rparr>,
                  \<lparr>tms_x = 2 * tms_x t, tms_y = 2 * tms_y t + 1, zoom = zoom t + 1\<rparr>,
                  \<lparr>tms_x = 2 * tms_x t + 1, tms_y = 2 * tms_y t, zoom = zoom t + 1\<rparr>,
                  \<lparr>tms_x = 2 * tms_x t + 1, tms_y = 2 * tms_y t + 1, zoom = zoom t + 1\<rparr>}"
proof -
  have t: "in_range_tile t" using valid by (simp add: valid_tile_def in_range_tile_def)
  note r = tms_in_range_double [OF t [unfolded in_range_tile_def]]
  have "get_quadrant_tiles chk t = Inr (quadrants t)"
    by (simp add: get_quadrant_tiles_def Let_def from_tms_def quadrants_def
        chk [OF r(1)] chk [OF r(2)] chk [OF r(3)] chk [OF r(4)])
  moreover have "length (quadrants t) = 4" "distinct (quadrants t)"
    by (simp_all add: quadrants_def)
  moreover have "set (quadrants t) =
      {\<lparr>tms_x = 2 * tms_x t, tms_y = 2 * tms_y t, zoom = zoom t + 1\<rparr>,
       \<lparr>tms_x = 2 * tms_x t, tms_y = 2 * tms_y t + 1, zoom = zoom t + 1\<rparr>,
       \<lparr>tms_x = 2 * tms_x t + 1, tms_y = 2 * tms_y t, zoom = zoom t + 1\<rparr>,
       \<lparr>tms_x = 2 * tms_x t + 1, tms_y = 2 * tms_y t + 1, zoom = zoom t + 1\<rparr>}"
    by (simp add: quadrants_def mult.commute)
  ultimately show ?thesis by blast
qed

theorem get_quadrant_tiles_children_witness:
  "valid_tile \<lparr>tms_x = 1412, tms_y = 3520, zoom = 17\<rparr>
   \<and> (\<exists>cs. get_quadrant_tiles tms_in_range \<lparr>tms_x = 1412, tms_y = 3520, zoom = 17\<rparr> = Inr cs
        \<and> length cs = 4 \<and> distinct cs
        \<and> set cs = {\<lparr>tms_x = 2825, tms_y = 7041, zoom = 18\<rparr>,
                    \<lparr>tms_x = 2825, tms_y = 7040, zoom = 18\<rparr>,
                    \<lparr>tms_x = 2824, tms_y = 7041, zoom = 18\<rparr>,
                    \<lparr>tms_x = 2824, tms_y = 7040, zoom = 18\<rparr>})"
proof -
  have v: "valid_tile \<lparr>tms_x = 1412, tms_y = 3520, zoom = 17\<rparr>"
    by (simp add: valid_tile_def tms_in_range_def)
  have "\<exists>cs. get_quadrant_tiles tms_in_range \<lparr>tms_x = 1412, tms_y = 3520, zoom = 17\<rparr> = Inr cs
        \<and> length cs = 4 \<and> distinct cs
        \<and> set cs = {\<lparr>tms_x = 2824, tms_y = 7040, zoom = 18\<rparr>,
                    \<lparr>tms_x = 2824, tms_y = 7041, zoom = 18\<rparr>,
                    \<lparr>tms_x = 2825, tms_y = 7040, zoom = 18\<rparr>,
                    \<lparr>tms_x = 2825, tms_y = 7041, zoom = 18\<rparr>}"
    using get_quadrant_tiles_children [OF v, of tms_in_range] by simp
  moreover have "{\<lparr>tms_x = 2824, tms_y = 7040, zoom = 18\<rparr>,
                    \<lparr>tms_x = 2824, tms_y = 7041, zoom = 18\<rparr>,
                    \<lparr>tms_x = 2825, tms_y = 7040, zoom = 18\<rparr>,
                    \<lparr>tms_x = 2825, tms_y = 7041, zoom = (18::int)\<rparr>}
      = {\<lparr>tms_x = 2825, tms_y = 7041, zoom = 18\<rparr>,
                    \<lparr>tms_x = 2825, tms_y = 7040, zoom = 18\<rparr>,
                    \<lparr>tms_x = 2824, tms_y = 7041, zoom = 18\<rparr>,
                    \<lparr>tms_x = 2824, tms_y = 7040, zoom = 18\<rparr>}"
    by blast
  ultimately show ?thesis using v by simp
qed

text \<open>
  C3. With \<open>max_zoom\<close> equal to the zoom of the top tile, \<open>get_tile_pyramid\<close> returns the
  one-element list holding the identifier of the top tile: the first iteration saves it and
  empties the stack. Only the top tile has to pass the constructor, no child is built.
\<close>

theorem get_tile_pyramid_same_zoom:
  assumes d: "has_xyz d x y z" and chk: "chk x y z"
  shows "get_tile_pyramid chk d z ret_format_default = Inr [tile_ident x y z]
     \<and> loop_body chk ret_format_default z \<lparr>tms_x = x, tms_y = y, zoom = z\<rparr> [] [] =
         Inr ([], [tile_ident x y z])"
proof -
  have top: "from_tms chk x y z = Inr \<lparr>tms_x = x, tms_y = y, zoom = z\<rparr>"
    using chk by (simp add: from_tms_def)
  have body: "loop_body chk ret_format_default z \<lparr>tms_x = x, tms_y = y, zoom = z\<rparr> [] [] =
      Inr ([], [tile_ident x y z])"
    by (simp add: loop_body_def ret_format_default_def)
  show ?thesis
    by (simp add: get_tile_pyramid_xyz [OF d] top body)
qed

theorem get_tile_pyramid_same_zoom_witness:
  "has_xyz (tile_dict 5 314 16) 5 314 16
   \<and> get_tile_pyramid (\<lambda>x y z. x = 5 \<and> y = 314 \<and> z = 16) (tile_dict 5 314 16) 16
        ret_format_default = Inr [''16-5-314'']"
proof -
  have d: "has_xyz (tile_dict 5 314 16) 5 314 16" by (rule has_xyz_tile_dict)
  have c: "(\<lambda>x y z. x = 5 \<and> y = 314 \<and> z = 16) (5::int) (314::int) (16::int)" by simp
  have i: "tile_ident 5 314 16 = ''16-5-314''" by code_simp
  from get_tile_pyramid_same_zoom [OF d, of "\<lambda>x y z. x = 5 \<and> y = 314 \<and> z = 16", OF c]
  show ?thesis using d by (simp add: i)
qed






text \<open>
  C6. Two task collections whose task lists hold the same (taskId, geometry) pairs in a
  different order give the same output of \<open>get_stripped_geojson_tasks\<close>: one line per task
  in the form \<open>{"taskID": id, "geometry": geometry}\<close>, the lines sorted and joined by
  newlines; so their checksums are equal.
\<close>

theorem get_stripped_geojson_tasks_permutation:
  assumes l1: "json_loads text_1 = Inr doc_1" and l2: "json_loads text_2 = Inr doc_2"
    and f1: "task_features doc_1 = Inr tasks_1" and f2: "task_features doc_2 = Inr tasks_2"
    and perm: "mset (map task_pair tasks_1) = mset (map task_pair tasks_2)"
    and out: "get_stripped_geojson_tasks json_loads py_str text_1 = Inr out"
  shows "get_stripped_geojson_tasks json_loads py_str text_2 = Inr out
     \<and> (\<exists>pairs. map task_pair tasks_1 = map Inr pairs
           \<and> out = join [CHR 0x0A] (sort (map (pair_line py_str) pairs)))
     \<and> test_geoj_equality json_loads py_str md5_hexdigest text_1 text_2 = Inr True"
proof -
  from out obtain r1 where r1: "strip_tasks py_str tasks_1 [] = Inr r1"
    and o: "out = join [CHR 0x0A] (sort r1)"
    by (auto simp: get_stripped_geojson_tasks_def l1 f1 split: sum.splits)
  from strip_tasks_permutation [OF perm r1] obtain pairs r2 where
    p: "map task_pair tasks_1 = map Inr pairs" and e: "r1 = map (pair_line py_str) pairs"
    and r2: "strip_tasks py_str tasks_2 [] = Inr r2" and s: "sort r2 = sort r1"
    by blast
  have 2: "get_stripped_geojson_tasks json_loads py_str text_2 = Inr out"
    by (simp add: get_stripped_geojson_tasks_def l2 f2 r2 s o)
  have 3: "\<exists>pairs. map task_pair tasks_1 = map Inr pairs
           \<and> out = join [CHR 0x0A] (sort (map (pair_line py_str) pairs))"
    using p e o by blast
  have "test_geoj_equality json_loads py_str md5_hexdigest text_1 text_2 = Inr True"
    by (simp add: test_geoj_equality_def out 2)
  with 2 3 show ?thesis by simp
qed

theorem get_stripped_geojson_tasks_permutation_witness:
  \<open>get_stripped_geojson_tasks
      (\<lambda>s. if s = ''A''
         then Inr (JDict [(''tasks'', JDict [(''features'', JList
                [JDict [(''properties'', JDict [(''taskId'', JInt 339)]), (''geometry'', JNull)],
                 JDict [(''properties'', JDict [(''taskId'', JInt 338)]), (''geometry'', JNull)]])])])
         else Inr (JDict [(''tasks'', JDict [(''features'', JList
                [JDict [(''geometry'', JNull), (''properties'', JDict [(''taskId'', JInt 338)])],
                 JDict [(''properties'', JDict [(''taskId'', JInt 339)]), (''geometry'', JNull)]])])]))
      (\<lambda>v. case v of JInt i \<Rightarrow> str_int i | _ \<Rightarrow> ''None'') ''B''
    = Inr (''{"taskID": 338, "geometry": None}'' @ [CHR 0x0A] @ ''{"taskID": 339, "geometry": None}'')\<close>
proof -
  define t338 where "t338 = JDict [(''properties'', JDict [(''taskId'', JInt 338)]), (''geometry'', JNull)]"
  define u338 where "u338 = JDict [(''geometry'', JNull), (''properties'', JDict [(''taskId'', JInt 338)])]"
  define t339 where "t339 = JDict [(''properties'', JDict [(''taskId'', JInt 339)]), (''geometry'', JNull)]"
  define doc_a where "doc_a = JDict [(''tasks'', JDict [(''features'', JList [t339, t338])])]"
  define doc_b where "doc_b = JDict [(''tasks'', JDict [(''features'', JList [u338, t339])])]"
  define loads :: "string \<Rightarrow> error + json"
    where "loads = (\<lambda>s. if s = ''A'' then Inr doc_a else Inr doc_b)"
  define py_str where "py_str = (\<lambda>v. case v of JInt i \<Rightarrow> str_int i | _ \<Rightarrow> ''None'')"
  have l1: "loads ''A'' = Inr doc_a" and l2: "loads ''B'' = Inr doc_b"
    by (simp_all add: loads_def)
  have f1: "task_features doc_a = Inr [t339, t338]"
    and f2: "task_features doc_b = Inr [u338, t339]"
    by (simp_all add: task_features_def doc_a_def doc_b_def keys_contain_def getitem_def iter_def)
  have perm: "mset (map task_pair [t339, t338]) = mset (map task_pair [u338, t339])"
    by (simp add: task_pair_def getitem_def t338_def u338_def t339_def)
  have out: \<open>get_stripped_geojson_tasks loads py_str ''A'' =
      Inr (''{"taskID": 338, "geometry": None}'' @ [CHR 0x0A] @ ''{"taskID": 339, "geometry": None}'')\<close>
    unfolding loads_def py_str_def doc_a_def doc_b_def t338_def t339_def by code_simp
  from get_stripped_geojson_tasks_permutation [OF l1 l2 f1 f2 perm out]
  show ?thesis
    unfolding loads_def py_str_def doc_a_def doc_b_def t338_def t339_def u338_def by simp
qed



text \<open>
  C8. For a valid top tile and \<open>max_zoom\<close> not below its zoom, the loop of
  \<open>get_tile_pyramid\<close> ends: after \<open>visits (max_zoom - zoom)\<close> iterations the stack is
  empty, and the results at that point are what the loop returns. Each iteration lowers the
  weight of the stack: a tile at \<open>max_zoom\<close> or beyond is popped without a push, and the
  children pushed lie deeper than their parent.
\<close>

theorem pyramid_loop_terminates:
  assumes valid: "valid_tile \<lparr>tms_x = x, tms_y = y, zoom = z\<rparr>"
    and le: "z \<le> max_zoom"
    and chk: "\<And>x' y' z'. z' \<le> max_zoom \<Longrightarrow> tms_in_range x' y' z' \<Longrightarrow> chk x' y' z'"
  shows "(\<exists>ids. run_iterations chk ret_format_default max_zoom (visits (nat (max_zoom - z)))
            [\<lparr>tms_x = x, tms_y = y, zoom = z\<rparr>] [] = Inr ([], ids)
          \<and> pyramid_loop chk ret_format_default max_zoom [\<lparr>tms_x = x, tms_y = y, zoom = z\<rparr>] [] =
              Inr ids)
     \<and> (\<forall>t rest desired st' desired'.
          loop_body chk ret_format_default max_zoom t rest desired = Inr (st', desired') \<longrightarrow>
          stack_weight max_zoom st' < stack_weight max_zoom (t # rest)
          \<and> (if max_zoom \<le> zoom t then st' = rest
              else (\<exists>cs. st' = rev cs @ rest \<and> (\<forall>c \<in> set cs. zoom t < zoom c))))"
proof -
  define t where "t = \<lparr>tms_x = x, tms_y = y, zoom = z\<rparr>"
  have t: "in_range_tile t" "zoom t \<le> max_zoom"
    using valid le by (simp_all add: t_def in_range_tile_def valid_tile_def)
  from pyramid_complete [OF chk t] obtain ids where
    r: "run_iterations chk ret_format_default max_zoom (visits (nat (max_zoom - z))) [t] [] =
         Inr ([], ids)"
    by (simp add: t_def)
  from run_iterations_loop [OF r] r
  have 1: "\<exists>ids. run_iterations chk ret_format_default max_zoom (visits (nat (max_zoom - z)))
            [\<lparr>tms_x = x, tms_y = y, zoom = z\<rparr>] [] = Inr ([], ids)
          \<and> pyramid_loop chk ret_format_default max_zoom [\<lparr>tms_x = x, tms_y = y, zoom = z\<rparr>] [] =
              Inr ids"
    unfolding t_def by blast
  show ?thesis
    using 1 loop_body_decreases loop_body_stack by blast
qed

theorem pyramid_loop_terminates_witness:
  "valid_tile \<lparr>tms_x = 5, tms_y = 314, zoom = 16\<rparr> \<and> (16::int) \<le> 18
   \<and> (\<exists>ids. run_iterations tms_in_range ret_format_default 18 21
               [\<lparr>tms_x = 5, tms_y = 314, zoom = 16\<rparr>] [] = Inr ([], ids))"
proof -
  have v: "valid_tile \<lparr>tms_x = 5, tms_y = 314, zoom = 16\<rparr>"
    by (simp add: valid_tile_def tms_in_range_def)
  have le: "(16::int) \<le> 18" by simp
  have n: "nat (18 - 16) = 2" by simp
  from pyramid_loop_terminates [OF v le, of tms_in_range]
  have "\<exists>ids. run_iterations tms_in_range ret_format_default 18 (visits (nat (18 - 16)))
               [\<lparr>tms_x = 5, tms_y = 314, zoom = 16\<rparr>] [] = Inr ([], ids)"
    by blast
  then show ?thesis
    using v by (simp add: n visits_2)
qed



text \<open>
  C10. When the zoom of the input tile exceeds \<open>max_zoom\<close>, \<open>get_tile_pyramid\<close> raises
  nothing: the test \<open>zoom >= max_zoom\<close> holds at the first iteration and the result is the
  one-element list with the formatted input tile.
\<close>

theorem get_tile_pyramid_zoom_past_max:
  assumes d: "has_xyz d x y z" and chk: "chk x y z" and gt: "max_zoom < z"
    and fmt: "fmt x y z = Inr s"
  shows "get_tile_pyramid chk d max_zoom fmt = Inr [s]"
proof -
  have top: "from_tms chk x y z = Inr \<lparr>tms_x = x, tms_y = y, zoom = z\<rparr>"
    using chk by (simp add: from_tms_def)
  have body: "loop_body chk fmt max_zoom \<lparr>tms_x = x, tms_y = y, zoom = z\<rparr> [] [] = Inr ([], [s])"
    using gt fmt by (simp add: loop_body_def)
  show ?thesis
    by (simp add: get_tile_pyramid_xyz [OF d] top body)
qed

theorem get_tile_pyramid_zoom_past_max_witness:
  "has_xyz (tile_dict 1 0 1) 1 0 1 \<and> tms_in_range 1 0 1 \<and> (0::int) < 1
   \<and> ret_format_default 1 0 1 = Inr ''1-1-0''
   \<and> get_tile_pyramid tms_in_range (tile_dict 1 0 1) 0 ret_format_default = Inr [''1-1-0'']"
proof -
  have d: "has_xyz (tile_dict 1 0 1) 1 0 1" by (rule has_xyz_tile_dict)
  have c: "tms_in_range 1 0 1" by (simp add: tms_in_range_def)
  have g: "(0::int) < 1" by simp
  have f: "ret_format_default 1 0 1 = Inr ''1-1-0''" by code_simp
  from get_tile_pyramid_zoom_past_max [where chk = tms_in_range and fmt = ret_format_default,
      OF d c g f]
  show ?thesis using d c f by simp
qed

end
